theory Spec2Isabelle
  imports
    Complex_Main
    "HOL-Library.Word"
    "HOL-Library.Multiset"
    "HOL-Library.Signed_Division"
begin

section \<open>Data model\<close>

text \<open>
  The package works on Go's \<^verbatim>\<open>color.RGBA\<close>: four \<^verbatim>\<open>uint8\<close> fields R, G, B, A.
\<close>

type_synonym uint8 = "8 word"

record RGBA =
  R :: uint8
  G :: uint8
  B :: uint8
  A :: uint8

text \<open>
  A Go slice is a view of a backing array: a pointer to its first element and a length
  (the capacity is left out: the package never appends to a pixel slice and never
  reslices beyond the length). Memory maps an address, counted in pixels, to the pixel
  stored there. Two slices alias when their address ranges meet, so a write through one
  is seen through the other.
\<close>

type_synonym memory = "nat \<Rightarrow> RGBA"

record slice =
  ptr :: nat
  len :: nat

definition addrs :: "slice \<Rightarrow> nat list" where
  "addrs s = [ptr s ..< ptr s + len s]"

definition contents :: "memory \<Rightarrow> slice \<Rightarrow> RGBA list" where
  "contents mem s = map mem (addrs s)"

text \<open>Writing the elements of a list to consecutive addresses starting at \<open>p\<close>.\<close>

definition store :: "memory \<Rightarrow> nat \<Rightarrow> RGBA list \<Rightarrow> memory" where
  "store mem p xs = (\<lambda>a. if p \<le> a \<and> a < p + length xs then xs ! (a - p) else mem a)"

text \<open>
  The composite literal \<^verbatim>\<open>[]color.RGBA{}\<close> allocates zero bytes; the Go runtime hands
  out one fixed address for every such allocation.
\<close>

definition zerobase :: nat where
  "zerobase = 0"

definition empty_slice :: slice where
  "empty_slice = \<lparr>ptr = zerobase, len = 0\<rparr>"

text \<open>A memory holding the given pixels from address 0 on, for concrete runs.\<close>

definition memory_of :: "RGBA list \<Rightarrow> memory" where
  "memory_of xs = (\<lambda>a. if a < length xs then xs ! a else \<lparr>R = 0, G = 0, B = 0, A = 0\<rparr>)"

definition whole :: "RGBA list \<Rightarrow> slice" where
  "whole xs = \<lparr>ptr = 0, len = length xs\<rparr>"

section \<open>Spread\<close>

definition min_uint8 :: "uint8 \<Rightarrow> uint8 \<Rightarrow> uint8" where
  "min_uint8 first second = (if first < second then first else second)"

definition max_uint8 :: "uint8 \<Rightarrow> uint8 \<Rightarrow> uint8" where
  "max_uint8 first second = (if first > second then first else second)"

text \<open>The six running extremes of the loop in \<^verbatim>\<open>Spread\<close>.\<close>

record minmax =
  minRed :: uint8
  maxRed :: uint8
  minGreen :: uint8
  maxGreen :: uint8
  minBlue :: uint8
  maxBlue :: uint8

definition minmax_step :: "RGBA \<Rightarrow> minmax \<Rightarrow> minmax" where
  "minmax_step pixel m =
     \<lparr>minRed = min_uint8 (minRed m) (R pixel), maxRed = max_uint8 (maxRed m) (R pixel),
      minGreen = min_uint8 (minGreen m) (G pixel), maxGreen = max_uint8 (maxGreen m) (G pixel),
      minBlue = min_uint8 (minBlue m) (B pixel), maxBlue = max_uint8 (maxBlue m) (B pixel)\<rparr>"

definition Spread :: "RGBA list \<Rightarrow> uint8 \<times> uint8 \<times> uint8" where
  "Spread pixels =
     (case pixels of
        [] \<Rightarrow> (0, 0, 0)
      | p0 # _ \<Rightarrow>
          (let m = fold minmax_step pixels
                     \<lparr>minRed = R p0, maxRed = R p0, minGreen = G p0, maxGreen = G p0,
                      minBlue = B p0, maxBlue = B p0\<rparr>
           in (maxRed m - minRed m, maxGreen m - minGreen m, maxBlue m - minBlue m)))"

section \<open>Average\<close>

text \<open>
  The three totals are Go \<^verbatim>\<open>int\<close>s. The width of \<^verbatim>\<open>int\<close> depends on the target: 64 bits
  on amd64 and arm64, 32 bits on 386 and arm. It is the parameter \<open>bits\<close> of the model.
  \<open>+\<close> wraps around in two's complement, \<^verbatim>\<open>/\<close> truncates towards zero, which is
  \<open>sdiv\<close>, and the conversion \<^verbatim>\<open>uint8(x)\<close> keeps the low eight bits.
\<close>

definition int_wrap :: "nat \<Rightarrow> int \<Rightarrow> int" where
  "int_wrap bits k = signed_take_bit (bits - 1) k"

definition int_add :: "nat \<Rightarrow> int \<Rightarrow> int \<Rightarrow> int" where
  "int_add bits a b = int_wrap bits (a + b)"

definition to_uint8 :: "int \<Rightarrow> uint8" where
  "to_uint8 k = word_of_int k"

definition total_step :: "nat \<Rightarrow> RGBA \<Rightarrow> int \<times> int \<times> int \<Rightarrow> int \<times> int \<times> int" where
  "total_step bits pixel t =
     (case t of (totalR, totalG, totalB) \<Rightarrow>
        (int_add bits totalR (uint (R pixel)), int_add bits totalG (uint (G pixel)),
         int_add bits totalB (uint (B pixel))))"

definition Average :: "nat \<Rightarrow> RGBA list \<Rightarrow> RGBA" where
  "Average bits pixels =
     (if length pixels = 0 then \<lparr>R = 0, G = 0, B = 0, A = 0xFF\<rparr>
      else
        (case fold (total_step bits) pixels (0, 0, 0) of (totalR, totalG, totalB) \<Rightarrow>
           \<lparr>R = to_uint8 (totalR sdiv int (length pixels)),
            G = to_uint8 (totalG sdiv int (length pixels)),
            B = to_uint8 (totalB sdiv int (length pixels)),
            A = 0xFF\<rparr>))"

section \<open>Partition\<close>

datatype channel = Red | Green | Blue

fun component :: "channel \<Rightarrow> RGBA \<Rightarrow> uint8" where
  "component Red = R"
| "component Green = G"
| "component Blue = B"

text \<open>
  The \<^verbatim>\<open>switch\<close> of \<^verbatim>\<open>Partition\<close> picks the comparison function; it has no default
  case, so \<^verbatim>\<open>less\<close> stays nil when no case applies.
\<close>

definition axis :: "RGBA list \<Rightarrow> channel option" where
  "axis pixels =
     (case Spread pixels of (deltaR, deltaG, deltaB) \<Rightarrow>
        if deltaR \<ge> deltaG \<and> deltaR \<ge> deltaB then Some Red
        else if deltaG \<ge> deltaR \<and> deltaG \<ge> deltaB then Some Green
        else if deltaB \<ge> deltaR \<and> deltaB \<ge> deltaG then Some Blue
        else None)"

text \<open>
  \<^verbatim>\<open>sort.SliceStable\<close> belongs to Go's standard library: it sorts the slice in place by
  the given \<^verbatim>\<open>less\<close>, keeping equal elements in their original order. With
  \<^verbatim>\<open>less(i, j) = pixels[i].C < pixels[j].C\<close> this is the stable ascending sort on the
  key \<open>C\<close>.
\<close>

definition SliceStable :: "(RGBA \<Rightarrow> uint8) \<Rightarrow> RGBA list \<Rightarrow> RGBA list" where
  "SliceStable key xs = sort_key key xs"

text \<open>
  Calling a nil \<^verbatim>\<open>less\<close> is the one run-time panic the package could raise.
\<close>

datatype panic = NilFuncCall

definition Partition :: "memory \<Rightarrow> slice \<Rightarrow> panic + (memory \<times> slice \<times> slice)" where
  "Partition mem pixels =
     (if len pixels = 0 then Inr (mem, empty_slice, empty_slice)
      else
        (case axis (contents mem pixels) of
           None \<Rightarrow> Inl NilFuncCall
         | Some c \<Rightarrow>
             Inr (store mem (ptr pixels) (SliceStable (component c) (contents mem pixels)),
                  \<lparr>ptr = ptr pixels, len = len pixels div 2\<rparr>,
                  \<lparr>ptr = ptr pixels + len pixels div 2, len = len pixels - len pixels div 2\<rparr>)))"

section \<open>Pixels\<close>

text \<open>The inner loop: every partition of the generation is bisected, left to right.\<close>

fun partition_all :: "memory \<Rightarrow> slice list \<Rightarrow> slice list \<Rightarrow> panic + (memory \<times> slice list)" where
  "partition_all mem [] next = Inr (mem, next)"
| "partition_all mem (part # partitions) next =
     (case Partition mem part of
        Inl e \<Rightarrow> Inl e
      | Inr (mem', left, right) \<Rightarrow> partition_all mem' partitions (next @ [left, right]))"

text \<open>The outer loop, from \<open>iteration\<close> up to \<open>levels\<close>.\<close>

function generations :: "int \<Rightarrow> int \<Rightarrow> memory \<Rightarrow> slice list \<Rightarrow> panic + (memory \<times> slice list)" where
  "generations iteration levels mem partitions =
     (if iteration < levels then
        (case partition_all mem partitions [] of
           Inl e \<Rightarrow> Inl e
         | Inr (mem', next) \<Rightarrow> generations (iteration + 1) levels mem' next)
      else Inr (mem, partitions))"
  by pat_completeness auto
termination
  by (relation "measure (\<lambda>(iteration, levels, mem, partitions). nat (levels - iteration))") auto

declare generations.simps [simp del]

definition Pixels :: "nat \<Rightarrow> memory \<Rightarrow> slice \<Rightarrow> int \<Rightarrow> panic + (memory \<times> RGBA list)" where
  "Pixels bits mem pixels levels =
     (case generations 0 levels mem [pixels] of
        Inl e \<Rightarrow> Inl e
      | Inr (mem', partitions) \<Rightarrow>
          Inr (mem', map (\<lambda>part. Average bits (contents mem' part)) partitions))"

section \<open>The values behind the slices\<close>

text \<open>
  What one bisection and one generation do to the pixel sequences, without the memory:
  the list a partition holds after the sort, its two halves, and the next generation.
  These are not part of the package; the lemmas below show that the package computes
  them.
\<close>

definition ordered :: "RGBA list \<Rightarrow> RGBA list" where
  "ordered ps = (case axis ps of None \<Rightarrow> ps | Some c \<Rightarrow> SliceStable (component c) ps)"

definition halves :: "RGBA list \<Rightarrow> RGBA list list" where
  "halves ps = [take (length ps div 2) (ordered ps), drop (length ps div 2) (ordered ps)]"

definition bisect_all :: "RGBA list list \<Rightarrow> RGBA list list" where
  "bisect_all pss = concat (map halves pss)"

text \<open>Two pixels that differ at most in alpha.\<close>

definition rgb_eq :: "RGBA \<Rightarrow> RGBA \<Rightarrow> bool" where
  "rgb_eq p q = (R p = R q \<and> G p = G q \<and> B p = B q)"

text \<open>The two slices \<^verbatim>\<open>Partition\<close> returns for a slice.\<close>

definition left_of :: "slice \<Rightarrow> slice" where
  "left_of s = (if len s = 0 then empty_slice else \<lparr>ptr = ptr s, len = len s div 2\<rparr>)"

definition right_of :: "slice \<Rightarrow> slice" where
  "right_of s =
     (if len s = 0 then empty_slice
      else \<lparr>ptr = ptr s + len s div 2, len = len s - len s div 2\<rparr>)"

text \<open>The addresses a generation of slices covers, in order.\<close>

definition region :: "slice list \<Rightarrow> nat list" where
  "region ss = concat (map addrs ss)"

text \<open>
  Concrete inputs: an opaque pixel, the four pixels of the package's ordering tests, two
  pixels whose red and green spreads tie, and the five pixels of the averaging test.
\<close>

definition rgb :: "uint8 \<Rightarrow> uint8 \<Rightarrow> uint8 \<Rightarrow> RGBA" where
  "rgb r g b = \<lparr>R = r, G = g, B = b, A = 0xFF\<rparr>"

definition order_pixels :: "RGBA list" where
  "order_pixels = [rgb 8 0 0, rgb 0 4 0, rgb 8 4 0, rgb 0 0 6]"

definition tie_pixels :: "RGBA list" where
  "tie_pixels = [rgb 5 1 0, rgb 1 5 0]"

definition random_pixels :: "RGBA list" where
  "random_pixels = [rgb 54 67 124, rgb 45 186 21, rgb 25 178 79, rgb 213 125 245, rgb 251 125 26]"

text \<open>An image of 8421505 white pixels, about 32 MiB: its channel sums exceed \<open>2 ^ 31\<close>.\<close>

definition white_pixels :: "RGBA list" where
  "white_pixels = replicate 8421505 (rgb 255 255 255)"

section \<open>Slices and memory\<close>

lemma length_addrs [simp]: "length (addrs s) = len s"
  by (simp add: addrs_def)

lemma length_contents [simp]: "length (contents mem s) = len s"
  by (simp add: contents_def)

lemma distinct_addrs [simp]: "distinct (addrs s)"
  by (simp add: addrs_def)

lemma set_addrs: "set (addrs s) = {ptr s ..< ptr s + len s}"
  by (simp add: addrs_def)

lemma axis_defined: "\<exists>c. axis pixels = Some c"
  by (auto simp: axis_def split: prod.splits)

lemma store_outside: "a \<notin> {p ..< p + length xs} \<Longrightarrow> store mem p xs a = mem a"
  by (auto simp: store_def)

lemma store_inside: "i < length xs \<Longrightarrow> store mem p xs (p + i) = xs ! i"
  by (simp add: store_def)

lemma map_store_upt: "map (store mem p xs) [p ..< p + length xs] = xs"
  by (rule nth_equalityI) (auto simp: store_inside)

lemma map_store_take: "n \<le> length xs \<Longrightarrow> map (store mem p xs) [p ..< p + n] = take n xs"
  by (rule nth_equalityI) (auto simp: store_inside)

lemma map_store_drop: "n \<le> length xs \<Longrightarrow> map (store mem p xs) [p + n ..< p + length xs] = drop n xs"
  apply (rule nth_equalityI) apply simp
  apply (simp add: add.assoc store_inside)
  done

section \<open>One bisection\<close>

text \<open>
  The model of \<^verbatim>\<open>sort.SliceStable\<close> meets the contract of the standard library, and
  the contract leaves no other result.
\<close>

lemma SliceStable_contract:
  "sorted (map key (SliceStable key xs)) \<and> mset (SliceStable key xs) = mset xs \<and>
   (\<forall>k. filter (\<lambda>x. key x = k) (SliceStable key xs) = filter (\<lambda>x. key x = k) xs)"
  by (simp add: SliceStable_def sort_key_stable)

lemma SliceStable_unique:
  assumes "mset ys = mset xs" and "sorted (map key ys)"
    and "\<forall>k. filter (\<lambda>x. key x = k) ys = filter (\<lambda>x. key x = k) xs"
  shows "SliceStable key xs = ys"
proof -
  have "filter (\<lambda>x. key k = key x) ys = filter (\<lambda>x. key k = key x) xs" for k
    using assms(3) [rule_format, of "key k"] by (simp add: eq_commute [of "key k"])
  with assms(1,2) show ?thesis
    unfolding SliceStable_def by (intro properties_for_sort_key) simp_all
qed

lemma store_Nil [simp]: "store mem p [] = mem"
  by (rule ext) (auto simp: store_def)

lemma length_ordered [simp]: "length (ordered ps) = length ps"
  by (simp add: ordered_def SliceStable_def split: option.splits)

lemma mset_ordered [simp]: "mset (ordered ps) = mset ps"
  by (simp add: ordered_def SliceStable_def split: option.splits)

lemma ordered_Nil [simp]: "ordered [] = []"
  by (simp add: ordered_def SliceStable_def split: option.splits)

lemma ordered_axis: "axis ps = Some c \<Longrightarrow> ordered ps = sort_key (component c) ps"
  by (simp add: ordered_def SliceStable_def)

lemma Partition_eq:
  "Partition mem s = Inr (store mem (ptr s) (ordered (contents mem s)), left_of s, right_of s)"
proof (cases "len s = 0")
  case True
  then have "contents mem s = []" by (simp add: contents_def addrs_def)
  with True show ?thesis by (simp add: Partition_def left_of_def right_of_def)
next
  case False
  obtain c where c: "axis (contents mem s) = Some c" using axis_defined by blast
  with False show ?thesis
    by (simp add: Partition_def left_of_def right_of_def ordered_def)
qed

lemma addrs_halves: "addrs (left_of s) @ addrs (right_of s) = addrs s"
proof (cases "len s = 0")
  case True
  then show ?thesis by (simp add: left_of_def right_of_def addrs_def empty_slice_def)
next
  case False
  have "[ptr s ..< ptr s + len s div 2] @ [ptr s + len s div 2 ..< ptr s + len s div 2 + (len s - len s div 2)]
        = [ptr s ..< ptr s + len s div 2 + (len s - len s div 2)]"
    by (rule upt_add_eq_append [symmetric]) simp
  with False show ?thesis by (simp add: left_of_def right_of_def addrs_def)
qed

lemma contents_store_self:
  "length xs = len s \<Longrightarrow> contents (store mem (ptr s) xs) s = xs"
  using map_store_upt [of mem "ptr s" xs] by (simp add: contents_def addrs_def)

lemma contents_store_left:
  "length xs = len s \<Longrightarrow> contents (store mem (ptr s) xs) (left_of s) = take (len s div 2) xs"
  using map_store_take [of "len s div 2" xs mem "ptr s"]
  by (auto simp: contents_def addrs_def left_of_def empty_slice_def)

lemma contents_store_right:
  "length xs = len s \<Longrightarrow> contents (store mem (ptr s) xs) (right_of s) = drop (len s div 2) xs"
  using map_store_drop [of "len s div 2" xs mem "ptr s"]
  by (auto simp: contents_def addrs_def right_of_def empty_slice_def)

section \<open>The loops compute the value-level generations\<close>

lemma region_simps [simp]:
  "region [] = []" "region (s # ss) = addrs s @ region ss" "region (ss @ ts) = region ss @ region ts"
  by (simp_all add: region_def)

lemma region_halves [simp]: "region [left_of s, right_of s] = addrs s"
  by (simp add: addrs_halves)

lemma addrs_halves_app: "addrs (left_of s) @ addrs (right_of s) @ xs = addrs s @ xs"
  using addrs_halves [of s] by (metis append_assoc)

lemma concat_contents: "concat (map (contents mem) ss) = map mem (region ss)"
  by (induction ss) (simp_all add: contents_def)

lemma contents_cong:
  "(\<And>a. a \<in> set (addrs t) \<Longrightarrow> mem' a = mem a) \<Longrightarrow> contents mem' t = contents mem t"
  unfolding contents_def by (rule map_cong) auto

lemma map_contents_cong:
  "(\<And>a. a \<in> set (region ts) \<Longrightarrow> mem' a = mem a) \<Longrightarrow> map (contents mem') ts = map (contents mem) ts"
  by (induction ts) (auto intro: contents_cong)

lemma store_ordered_outside:
  "a \<notin> set (addrs s) \<Longrightarrow> store mem (ptr s) (ordered (contents mem s)) a = mem a"
  by (rule store_outside) (simp add: set_addrs)

lemma partition_all_refine:
  "distinct (region (nxt @ ss)) \<Longrightarrow>
   \<exists>mem' nxt'. partition_all mem ss nxt = Inr (mem', nxt') \<and>
     region nxt' = region (nxt @ ss) \<and>
     length nxt' = length nxt + 2 * length ss \<and>
     map (contents mem') nxt' = map (contents mem) nxt @ bisect_all (map (contents mem) ss) \<and>
     (\<forall>a. a \<notin> set (region ss) \<longrightarrow> mem' a = mem a)"
proof (induction ss arbitrary: mem nxt)
  case Nil
  then show ?case by (simp add: bisect_all_def)
next
  case (Cons s ss)
  let ?m = "store mem (ptr s) (ordered (contents mem s))"
  let ?n = "nxt @ [left_of s, right_of s]"
  have dist: "distinct (region (?n @ ss))"
    using Cons.prems by (simp add: addrs_halves_app)
  from Cons.IH [OF dist, of ?m] obtain mem' nxt' where
    run: "partition_all ?m ss ?n = Inr (mem', nxt')" and
    reg: "region nxt' = region (?n @ ss)" and
    lng: "length nxt' = length ?n + 2 * length ss" and
    cnt: "map (contents mem') nxt' = map (contents ?m) ?n @ bisect_all (map (contents ?m) ss)" and
    out: "\<forall>a. a \<notin> set (region ss) \<longrightarrow> mem' a = ?m a"
    by blast
  have nxt_same: "map (contents ?m) nxt = map (contents mem) nxt"
    using Cons.prems by (intro map_contents_cong store_ordered_outside) auto
  have ss_same: "map (contents ?m) ss = map (contents mem) ss"
    using Cons.prems by (intro map_contents_cong store_ordered_outside) auto
  have l: "contents ?m (left_of s) = take (len s div 2) (ordered (contents mem s))"
    by (simp add: contents_store_left)
  have r: "contents ?m (right_of s) = drop (len s div 2) (ordered (contents mem s))"
    by (simp add: contents_store_right)
  have "partition_all mem (s # ss) nxt = Inr (mem', nxt')"
    using run by (simp add: Partition_eq)
  moreover have "region nxt' = region (nxt @ s # ss)"
    using reg by (simp add: addrs_halves_app)
  moreover have "length nxt' = length nxt + 2 * length (s # ss)"
    using lng by simp
  moreover have "map (contents mem') nxt' = map (contents mem) nxt @ bisect_all (map (contents mem) (s # ss))"
    using cnt nxt_same ss_same l r by (simp add: bisect_all_def halves_def)
  moreover have "\<forall>a. a \<notin> set (region (s # ss)) \<longrightarrow> mem' a = mem a"
    using out by (auto simp: store_ordered_outside)
  ultimately show ?case by blast
qed

lemma generations_refine:
  "distinct (region ss) \<Longrightarrow>
   \<exists>mem' ss'. generations i n mem ss = Inr (mem', ss') \<and>
     region ss' = region ss \<and>
     length ss' = 2 ^ nat (n - i) * length ss \<and>
     map (contents mem') ss' = (bisect_all ^^ nat (n - i)) (map (contents mem) ss) \<and>
     (\<forall>a. a \<notin> set (region ss) \<longrightarrow> mem' a = mem a)"
proof (induction i n mem ss rule: generations.induct)
  case (1 i n mem ss)
  show ?case
  proof (cases "i < n")
    case False
    then show ?thesis by (simp add: generations.simps [of i n])
  next
    case True
    from partition_all_refine [of "[]" ss mem] "1.prems" obtain m1 s1 where
      run1: "partition_all mem ss [] = Inr (m1, s1)" and
      reg1: "region s1 = region ss" and
      lng1: "length s1 = 2 * length ss" and
      cnt1: "map (contents m1) s1 = bisect_all (map (contents mem) ss)" and
      out1: "\<forall>a. a \<notin> set (region ss) \<longrightarrow> m1 a = mem a"
      by auto
    have dist1: "distinct (region s1)" using reg1 "1.prems" by simp
    from "1.IH" [OF True run1 refl dist1] obtain mem' ss' where
      run: "generations (i + 1) n m1 s1 = Inr (mem', ss')" and
      reg: "region ss' = region s1" and
      lng: "length ss' = 2 ^ nat (n - (i + 1)) * length s1" and
      cnt: "map (contents mem') ss' = (bisect_all ^^ nat (n - (i + 1))) (map (contents m1) s1)" and
      out: "\<forall>a. a \<notin> set (region s1) \<longrightarrow> mem' a = m1 a"
      by blast
    have step: "nat (n - i) = Suc (nat (n - (i + 1)))" using True by simp
    have "generations i n mem ss = Inr (mem', ss')"
      using True run1 run by (simp add: generations.simps [of i n])
    moreover have "region ss' = region ss" using reg reg1 by simp
    moreover have "length ss' = 2 ^ nat (n - i) * length ss"
      using lng lng1 by (simp add: step)
    moreover have "map (contents mem') ss' = (bisect_all ^^ nat (n - i)) (map (contents mem) ss)"
      using cnt cnt1 by (simp add: step funpow_swap1)
    moreover have "\<forall>a. a \<notin> set (region ss) \<longrightarrow> mem' a = mem a"
      using out out1 reg1 by simp
    ultimately show ?thesis by blast
  qed
qed

lemma generations_done: "\<not> i < n \<Longrightarrow> generations i n mem ss = Inr (mem, ss)"
  by (simp add: generations.simps [of i n])

lemma generations_split:
  "k \<le> n \<Longrightarrow>
   generations i n mem ss =
     (if i < k then (case generations i k mem ss of Inl e \<Rightarrow> Inl e | Inr (m, g) \<Rightarrow> generations k n m g)
      else generations i n mem ss)"
proof (induction i k mem ss rule: generations.induct)
  case (1 i k mem ss)
  show ?case
  proof (cases "i < k")
    case False
    then show ?thesis by simp
  next
    case True
    then have lt: "i < n" using "1.prems" by simp
    show ?thesis
    proof (cases "partition_all mem ss []")
      case (Inl e)
      with True lt show ?thesis
        by (simp add: generations.simps [of i n] generations.simps [of i k])
    next
      case (Inr b)
      obtain m1 s1 where b: "b = (m1, s1)" by (cases b)
      have ih: "generations (i + 1) n m1 s1 =
         (if i + 1 < k then (case generations (i + 1) k m1 s1 of Inl e \<Rightarrow> Inl e | Inr (m, g) \<Rightarrow> generations k n m g)
          else generations (i + 1) n m1 s1)"
        using "1.IH" [OF True Inr b [symmetric] "1.prems"] .
      show ?thesis
      proof (cases "i + 1 < k")
        case True
        with ih \<open>i < k\<close> lt Inr b show ?thesis
          by (simp add: generations.simps [of i n] generations.simps [of i k])
      next
        case False
        then have "i + 1 = k" using \<open>i < k\<close> by simp
        then have "generations (i + 1) k m1 s1 = Inr (m1, s1)"
          by (simp add: generations_done)
        with \<open>i + 1 = k\<close> \<open>i < k\<close> lt Inr b show ?thesis
          by (simp add: generations.simps [of i n] generations.simps [of i k])
      qed
    qed
  qed
qed

lemma mset_concat_halves: "mset (concat (halves ps)) = mset ps"
proof -
  have "concat (halves ps) = ordered ps" by (simp add: halves_def)
  then show ?thesis by simp
qed

lemma mset_concat_bisect_all: "mset (concat (bisect_all pss)) = mset (concat pss)"
  by (induction pss) (simp_all add: bisect_all_def mset_concat_halves del: mset_concat)

lemma mset_concat_funpow: "mset (concat ((bisect_all ^^ k) pss)) = mset (concat pss)"
  by (induction k) (simp_all add: mset_concat_bisect_all del: mset_concat)

section \<open>The totals of Average\<close>

lemma uint_le_255: "uint (w :: uint8) \<le> 255"
  using uint_bounded [of w] by simp

lemma sum_list_uint_bounds:
  "0 \<le> (\<Sum>p\<leftarrow>ps. uint ((f p) :: uint8)) \<and> (\<Sum>p\<leftarrow>ps. uint (f p)) \<le> 255 * int (length ps)"
proof (induction ps)
  case Nil
  then show ?case by simp
next
  case (Cons p ps)
  have "uint (f p) \<le> 255" by (rule uint_le_255)
  moreover have "0 \<le> uint (f p)" by simp
  ultimately show ?case using Cons.IH by simp
qed

text \<open>Wrapping after every addition is wrapping the true sum once.\<close>

lemma int_wrap_add_left: "int_wrap bits (int_wrap bits a + b) = int_wrap bits (a + b)"
  unfolding int_wrap_def
  by (metis signed_take_bit_add signed_take_bit_signed_take_bit min.idem)

lemma int_wrap_0 [simp]: "int_wrap bits 0 = 0"
  by (simp add: int_wrap_def)

lemma int_wrap_exact: "0 \<le> k \<Longrightarrow> k < 2 ^ (bits - 1) \<Longrightarrow> int_wrap bits k = k"
  by (simp add: int_wrap_def signed_take_bit_int_eq_self)

lemma fold_total_step_wrap:
  "fold (total_step bits) ps (int_wrap bits tR, int_wrap bits tG, int_wrap bits tB) =
     (int_wrap bits (tR + (\<Sum>p\<leftarrow>ps. uint (R p))), int_wrap bits (tG + (\<Sum>p\<leftarrow>ps. uint (G p))),
      int_wrap bits (tB + (\<Sum>p\<leftarrow>ps. uint (B p))))"
proof (induction ps arbitrary: tR tG tB)
  case Nil
  then show ?case by simp
next
  case (Cons p ps)
  have "total_step bits p (int_wrap bits tR, int_wrap bits tG, int_wrap bits tB) =
      (int_wrap bits (tR + uint (R p)), int_wrap bits (tG + uint (G p)), int_wrap bits (tB + uint (B p)))"
    by (simp add: total_step_def int_add_def int_wrap_add_left)
  then show ?case by (simp add: Cons.IH add.assoc)
qed

lemma fold_total_step:
  "fold (total_step bits) ps (0, 0, 0) =
     (int_wrap bits (\<Sum>p\<leftarrow>ps. uint (R p)), int_wrap bits (\<Sum>p\<leftarrow>ps. uint (G p)),
      int_wrap bits (\<Sum>p\<leftarrow>ps. uint (B p)))"
  using fold_total_step_wrap [of bits ps 0 0 0] by simp

lemma Average_totals:
  "ps \<noteq> [] \<Longrightarrow>
   Average bits ps =
     \<lparr>R = to_uint8 (int_wrap bits (\<Sum>p\<leftarrow>ps. uint (R p)) sdiv int (length ps)),
      G = to_uint8 (int_wrap bits (\<Sum>p\<leftarrow>ps. uint (G p)) sdiv int (length ps)),
      B = to_uint8 (int_wrap bits (\<Sum>p\<leftarrow>ps. uint (B p)) sdiv int (length ps)),
      A = 0xFF\<rparr>"
  by (simp add: Average_def fold_total_step)

lemma to_uint8_quotient:
  assumes "ps \<noteq> []" and "0 \<le> t" and "t \<le> 255 * int (length ps)"
  shows "uint (to_uint8 (t sdiv int (length ps))) = t sdiv int (length ps)"
proof -
  let ?n = "int (length ps)"
  have n: "0 < ?n" using assms(1) by simp
  have eq: "t sdiv ?n = t div ?n"
    using assms(2) n by (simp add: signed_divide_int_def sgn_if)
  have "t div ?n \<le> 255"
  proof -
    have "t div ?n \<le> (255 * ?n) div ?n" using assms(3) n by (intro zdiv_mono1) simp_all
    then show ?thesis using n by simp
  qed
  moreover have "0 \<le> t div ?n" using assms(2) n by (simp add: pos_imp_zdiv_nonneg_iff)
  ultimately have "uint (word_of_int (t div ?n) :: uint8) = t div ?n"
    by (simp add: uint_word_of_int take_bit_int_eq_self)
  with eq show ?thesis by (simp add: to_uint8_def)
qed

lemma channel_mean:
  assumes "ps \<noteq> []" and "255 * int (length ps) < 2 ^ (bits - 1)"
  shows "uint (to_uint8 (int_wrap bits (\<Sum>p\<leftarrow>ps. uint ((f p) :: uint8)) sdiv int (length ps))) =
         (\<Sum>p\<leftarrow>ps. uint (f p)) sdiv int (length ps)"
proof -
  let ?t = "\<Sum>p\<leftarrow>ps. uint (f p)"
  have bounds: "0 \<le> ?t" "?t \<le> 255 * int (length ps)"
    using sum_list_uint_bounds [of f ps] by simp_all
  then have "int_wrap bits ?t = ?t"
    using assms(2) by (intro int_wrap_exact) simp_all
  with to_uint8_quotient [OF assms(1) bounds] show ?thesis by simp
qed

text \<open>The white image on a 32-bit target: each total wraps to a negative number.\<close>

lemma white_sum:
  "(\<Sum>p\<leftarrow>white_pixels. uint (R p)) = 2147483775 \<and>
   (\<Sum>p\<leftarrow>white_pixels. uint (G p)) = 2147483775 \<and>
   (\<Sum>p\<leftarrow>white_pixels. uint (B p)) = 2147483775"
proof -
  have "(\<Sum>p\<leftarrow>replicate n (rgb 255 255 255). uint (R p)) = 255 * int n \<and>
        (\<Sum>p\<leftarrow>replicate n (rgb 255 255 255). uint (G p)) = 255 * int n \<and>
        (\<Sum>p\<leftarrow>replicate n (rgb 255 255 255). uint (B p)) = 255 * int n" for n
    by (induction n) (simp_all add: rgb_def)
  from this [of 8421505] show ?thesis by (simp add: white_pixels_def)
qed

lemma white_wrapped: "int_wrap 32 2147483775 = - 2147483521"
  by (simp add: int_wrap_def signed_take_bit_eq_take_bit_shift take_bit_eq_mod)

section \<open>Pixels that differ in alpha only\<close>

lemma minmax_step_rgb: "rgb_eq p q \<Longrightarrow> minmax_step p m = minmax_step q m"
  by (simp add: rgb_eq_def minmax_step_def)

lemma fold_minmax_rgb: "list_all2 rgb_eq ps qs \<Longrightarrow> fold minmax_step ps m = fold minmax_step qs m"
  by (induction ps qs arbitrary: m rule: list_all2_induct) (simp_all add: minmax_step_rgb)

lemma Spread_rgb: "list_all2 rgb_eq ps qs \<Longrightarrow> Spread ps = Spread qs"
proof (cases ps)
  case Nil
  assume "list_all2 rgb_eq ps qs"
  with Nil show ?thesis by simp
next
  case (Cons p ps')
  assume rel: "list_all2 rgb_eq ps qs"
  with Cons obtain q qs' where qs: "qs = q # qs'" and pq: "rgb_eq p q"
    by (auto simp: list_all2_Cons1)
  from pq have "R p = R q" "G p = G q" "B p = B q" by (simp_all add: rgb_eq_def)
  with fold_minmax_rgb [OF rel] show ?thesis
    by (simp add: Spread_def Cons qs)
qed

lemma total_step_rgb: "rgb_eq p q \<Longrightarrow> total_step bits p t = total_step bits q t"
  by (simp add: rgb_eq_def total_step_def)

lemma fold_total_rgb: "list_all2 rgb_eq ps qs \<Longrightarrow> fold (total_step bits) ps t = fold (total_step bits) qs t"
  by (induction ps qs arbitrary: t rule: list_all2_induct) (simp_all add: total_step_rgb)

lemma Average_rgb: "list_all2 rgb_eq ps qs \<Longrightarrow> Average bits ps = Average bits qs"
proof -
  assume rel: "list_all2 rgb_eq ps qs"
  then have "length ps = length qs" by (rule list_all2_lengthD)
  with fold_total_rgb [OF rel] show ?thesis by (simp add: Average_def)
qed

lemma axis_rgb: "list_all2 rgb_eq ps qs \<Longrightarrow> axis ps = axis qs"
  by (simp add: axis_def Spread_rgb)

lemma component_rgb: "rgb_eq p q \<Longrightarrow> component c p = component c q"
  by (cases c) (simp_all add: rgb_eq_def)

lemma insort_key_rgb:
  "list_all2 rgb_eq xs ys \<Longrightarrow> rgb_eq x y \<Longrightarrow>
   list_all2 rgb_eq (insort_key (component c) x xs) (insort_key (component c) y ys)"
proof (induction xs ys rule: list_all2_induct)
  case Nil
  then show ?case by simp
next
  case (Cons a as b bs)
  have "component c a = component c b" "component c x = component c y"
    using Cons.hyps(1) Cons.prems by (simp_all add: component_rgb)
  then show ?case using Cons by simp
qed

lemma sort_key_rgb:
  "list_all2 rgb_eq ps qs \<Longrightarrow> list_all2 rgb_eq (sort_key (component c) ps) (sort_key (component c) qs)"
  by (induction ps qs rule: list_all2_induct) (simp_all add: insort_key_rgb)

lemma ordered_rgb: "list_all2 rgb_eq ps qs \<Longrightarrow> list_all2 rgb_eq (ordered ps) (ordered qs)"
proof -
  assume rel: "list_all2 rgb_eq ps qs"
  obtain c where c: "axis ps = Some c" using axis_defined by blast
  then have "axis qs = Some c" using axis_rgb [OF rel] by simp
  with c sort_key_rgb [OF rel, of c] show ?thesis by (simp add: ordered_axis)
qed

lemma halves_rgb: "list_all2 rgb_eq ps qs \<Longrightarrow> list_all2 (list_all2 rgb_eq) (halves ps) (halves qs)"
proof -
  assume rel: "list_all2 rgb_eq ps qs"
  then have len: "length ps = length qs" by (rule list_all2_lengthD)
  from ordered_rgb [OF rel] show ?thesis
    by (simp add: halves_def len list_all2_takeI list_all2_dropI)
qed

lemma bisect_all_rgb:
  "list_all2 (list_all2 rgb_eq) pss qss \<Longrightarrow> list_all2 (list_all2 rgb_eq) (bisect_all pss) (bisect_all qss)"
  unfolding bisect_all_def
  by (induction pss qss rule: list_all2_induct) (simp_all add: list_all2_appendI halves_rgb)

lemma funpow_bisect_all_rgb:
  "list_all2 (list_all2 rgb_eq) pss qss \<Longrightarrow>
   list_all2 (list_all2 rgb_eq) ((bisect_all ^^ k) pss) ((bisect_all ^^ k) qss)"
  by (induction k) (simp_all add: bisect_all_rgb)

lemma map_Average_rgb:
  "list_all2 (list_all2 rgb_eq) pss qss \<Longrightarrow> map (Average bits) pss = map (Average bits) qss"
  by (induction pss qss rule: list_all2_induct) (simp_all add: Average_rgb)

lemma Pixels_eq:
  "\<exists>mem'. Pixels bits mem pixels levels =
     Inr (mem', map (Average bits) ((bisect_all ^^ nat levels) [contents mem pixels]))"
proof -
  have "distinct (region [pixels])" by simp
  from generations_refine [OF this, of 0 levels mem] obtain mem' ss' where
    run: "generations 0 levels mem [pixels] = Inr (mem', ss')" and
    cnt: "map (contents mem') ss' = (bisect_all ^^ nat (levels - 0)) (map (contents mem) [pixels])"
    by blast
  have "map (\<lambda>part. Average bits (contents mem' part)) ss' = map (Average bits) (map (contents mem') ss')"
    by simp
  with run cnt show ?thesis by (simp add: Pixels_def)
qed

lemma rgb_eq_refl: "list_all2 rgb_eq ps ps"
  by (simp add: list_all2_same rgb_eq_def)

section \<open>Concrete runs\<close>

lemma contents_memory_of: "contents (memory_of xs) (whole xs) = xs"
  by (rule nth_equalityI) (simp_all add: contents_def addrs_def whole_def memory_of_def)

lemma Spread_order: "Spread order_pixels = (8, 4, 6)"
  by (simp add: Spread_def order_pixels_def rgb_def minmax_step_def min_uint8_def max_uint8_def)

lemma axis_order: "axis order_pixels = Some Red"
  by (simp add: axis_def Spread_order)

lemma ordered_order: "ordered order_pixels = [rgb 0 4 0, rgb 0 0 6, rgb 8 0 0, rgb 8 4 0]"
  by (simp add: ordered_def axis_order SliceStable_def) (simp add: order_pixels_def rgb_def)

lemma Spread_tie: "Spread tie_pixels = (4, 4, 0)"
  by (simp add: Spread_def tie_pixels_def rgb_def minmax_step_def min_uint8_def max_uint8_def)

section \<open>The package's tests\<close>

text \<open>
  Cases of \<^verbatim>\<open>TestSpread\<close>, \<^verbatim>\<open>TestAverage\<close>, \<^verbatim>\<open>TestPartition\<close> and \<^verbatim>\<open>TestPixels\<close>,
  run on the model: it returns what the tests expect of the package.
\<close>

lemma test_order_level_1:
  "snd (projr (Pixels 64 (memory_of order_pixels) (whole order_pixels) 1)) = [rgb 0 2 3, rgb 8 2 0]"
  by code_simp

lemma test_order_level_2:
  "snd (projr (Pixels 64 (memory_of order_pixels) (whole order_pixels) 2)) =
     [rgb 0 4 0, rgb 0 0 6, rgb 8 0 0, rgb 8 4 0]"
  by code_simp

lemma test_order_level_0:
  "snd (projr (Pixels 64 (memory_of order_pixels) (whole order_pixels) 0)) = [rgb 4 2 1]"
  by code_simp

lemma test_one_pixel_3_levels:
  "snd (projr (Pixels 64 (memory_of [rgb 255 0 0]) (whole [rgb 255 0 0]) 3)) =
     [rgb 0 0 0, rgb 0 0 0, rgb 0 0 0, rgb 0 0 0, rgb 0 0 0, rgb 0 0 0, rgb 0 0 0, rgb 255 0 0]"
  by code_simp

lemma test_partition_by_green:
  "(let ps = [rgb 0 21 0, rgb 5 15 5, rgb 10 10 10, rgb 15 5 15, rgb 20 0 20] in
    case Partition (memory_of ps) (whole ps) of
      Inl e \<Rightarrow> None
    | Inr (mem', left, right) \<Rightarrow> Some (contents mem' left, contents mem' right)) =
   Some ([rgb 20 0 20, rgb 15 5 15], [rgb 10 10 10, rgb 5 15 5, rgb 0 21 0])"
  by code_simp

lemma test_spread: "Spread [rgb 105 36 168, rgb 106 32 171, rgb 107 34 165] = (2, 4, 6)"
  by code_simp

lemma test_average: "Average 64 random_pixels = rgb 117 136 99"
  by code_simp

section \<open>Properties of the package\<close>

text \<open>
  \<^bold>\<open>C1.\<close> For every pixel set P, \<^verbatim>\<open>Partition(P)\<close> returns two pixel sets whose lengths
  add up to the length of P and whose concatenation holds the pixels of P, each as often
  as P does. The call never panics.
\<close>

theorem Partition_permutation:
  "\<exists>mem' left right.
     Partition mem pixels = Inr (mem', left, right) \<and>
     length (contents mem' left) + length (contents mem' right) = length (contents mem pixels) \<and>
     mset (contents mem' left @ contents mem' right) = mset (contents mem pixels)"
proof -
  let ?xs = "ordered (contents mem pixels)"
  let ?m = "store mem (ptr pixels) ?xs"
  have "contents ?m (left_of pixels) @ contents ?m (right_of pixels) = ?xs"
    by (simp add: contents_store_left contents_store_right)
  then have "mset (contents ?m (left_of pixels) @ contents ?m (right_of pixels)) = mset (contents mem pixels)"
    by (simp only: mset_ordered)
  moreover have "length (contents ?m (left_of pixels)) + length (contents ?m (right_of pixels)) = length (contents mem pixels)"
    by (simp add: contents_store_left contents_store_right)
  ultimately show ?thesis
    using Partition_eq [of mem pixels] by blast
qed

text \<open>
  \<^bold>\<open>C2.\<close> For every pixel set P and every level count \<open>levels \<ge> 0\<close>,
  \<^verbatim>\<open>Pixels(P, levels)\<close> returns a palette of exactly \<open>2 ^ levels\<close> colours.
\<close>

theorem Pixels_length:
  "0 \<le> levels \<Longrightarrow>
     \<exists>mem' palette. Pixels bits mem pixels levels = Inr (mem', palette) \<and> length palette = 2 ^ nat levels"
proof -
  have "distinct (region [pixels])" by simp
  from generations_refine [OF this, of 0 levels mem] obtain mem' ss' where
    "generations 0 levels mem [pixels] = Inr (mem', ss')" "length ss' = 2 ^ nat (levels - 0) * length [pixels]"
    by blast
  then show ?thesis by (simp add: Pixels_def)
qed

theorem Pixels_length_witness:
  "(0::int) \<le> 2 \<and>
   (\<exists>mem' palette. Pixels 64 (memory_of order_pixels) (whole order_pixels) 2 = Inr (mem', palette) \<and>
      length palette = 4)"
  using Pixels_length [where levels = 2 and bits = 64 and mem = "memory_of order_pixels"
      and pixels = "whole order_pixels"]
  by simp

text \<open>
  \<^bold>\<open>C3.\<close> \<^verbatim>\<open>Partition(P)\<close> has no side effect beyond reordering its input in place. It
  makes no private copy: \<^verbatim>\<open>sort.SliceStable\<close> sorts the caller's backing array and the
  two results are views of it. After the call the caller's slice holds its former pixels
  in stable ascending order of the chosen channel (so the same pixels, each as often as
  before), every address outside the slice keeps its pixel, and the two returned slices
  are the two halves of the caller's storage.
\<close>

theorem Partition_in_place:
  "\<exists>mem' left right c.
     Partition mem pixels = Inr (mem', left, right) \<and>
     axis (contents mem pixels) = Some c \<and>
     contents mem' pixels = sort_key (component c) (contents mem pixels) \<and>
     mset (contents mem' pixels) = mset (contents mem pixels) \<and>
     (\<forall>a. a \<notin> set (addrs pixels) \<longrightarrow> mem' a = mem a) \<and>
     addrs left @ addrs right = addrs pixels \<and>
     len left = len pixels div 2 \<and>
     len right = len pixels - len pixels div 2 \<and>
     (len pixels \<noteq> 0 \<longrightarrow> ptr left = ptr pixels \<and> ptr right = ptr pixels + len pixels div 2) \<and>
     contents mem' left = take (len pixels div 2) (contents mem' pixels) \<and>
     contents mem' right = drop (len pixels div 2) (contents mem' pixels)"
proof -
  obtain c where c: "axis (contents mem pixels) = Some c"
    using axis_defined by blast
  let ?ps = "contents mem pixels"
  let ?xs = "sort_key (component c) ?ps"
  let ?m = "store mem (ptr pixels) ?xs"
  have run: "Partition mem pixels = Inr (?m, left_of pixels, right_of pixels)"
    using Partition_eq [of mem pixels] c by (simp add: ordered_axis)
  have self: "contents ?m pixels = ?xs" by (simp add: contents_store_self)
  have ms: "mset (contents ?m pixels) = mset ?ps" by (simp only: self mset_sort)
  have out: "\<forall>a. a \<notin> set (addrs pixels) \<longrightarrow> ?m a = mem a"
    using store_ordered_outside [of _ pixels mem] c by (simp add: ordered_axis)
  have ll: "len (left_of pixels) = len pixels div 2"
    by (simp add: left_of_def empty_slice_def)
  have lr: "len (right_of pixels) = len pixels - len pixels div 2"
    by (simp add: right_of_def empty_slice_def)
  have pt: "len pixels \<noteq> 0 \<longrightarrow>
      ptr (left_of pixels) = ptr pixels \<and> ptr (right_of pixels) = ptr pixels + len pixels div 2"
    by (simp add: left_of_def right_of_def)
  have cl: "contents ?m (left_of pixels) = take (len pixels div 2) (contents ?m pixels)"
    by (simp only: self) (simp add: contents_store_left)
  have cr: "contents ?m (right_of pixels) = drop (len pixels div 2) (contents ?m pixels)"
    by (simp only: self) (simp add: contents_store_right)
  show ?thesis
  proof (intro exI conjI)
    show "Partition mem pixels = Inr (?m, left_of pixels, right_of pixels)" by (rule run)
  qed (rule c self ms out addrs_halves ll lr pt cl cr)+
qed

text \<open>
  The four pixels of the ordering tests: the caller's slice is sorted on red, the address
  after it is untouched, and the results are the slices of its first two and its last two
  addresses.
\<close>

theorem Partition_in_place_witness:
  "4 \<notin> set (addrs (whole order_pixels)) \<and> len (whole order_pixels) \<noteq> 0 \<and>
   (\<exists>mem'.
     Partition (memory_of order_pixels) (whole order_pixels) =
       Inr (mem', \<lparr>ptr = 0, len = 2\<rparr>, \<lparr>ptr = 2, len = 2\<rparr>) \<and>
     contents mem' (whole order_pixels) = [rgb 0 4 0, rgb 0 0 6, rgb 8 0 0, rgb 8 4 0] \<and>
     contents mem' \<lparr>ptr = 0, len = 2\<rparr> = [rgb 0 4 0, rgb 0 0 6] \<and>
     contents mem' \<lparr>ptr = 2, len = 2\<rparr> = [rgb 8 0 0, rgb 8 4 0] \<and>
     mem' 4 = memory_of order_pixels 4)"
proof -
  let ?m = "memory_of order_pixels" and ?s = "whole order_pixels"
  have out: "4 \<notin> set (addrs ?s)"
    by (simp add: addrs_def whole_def order_pixels_def)
  have ne: "len ?s \<noteq> 0" and n: "len ?s = 4" and p: "ptr ?s = 0"
    by (simp_all add: whole_def order_pixels_def)
  have srt: "sort_key (component Red) order_pixels = [rgb 0 4 0, rgb 0 0 6, rgb 8 0 0, rgb 8 4 0]"
    using ordered_order by (simp add: ordered_axis [OF axis_order])
  from Partition_in_place [of ?m ?s] obtain mem' left right c where
    run: "Partition ?m ?s = Inr (mem', left, right)" and
    ax: "axis (contents ?m ?s) = Some c" and
    self: "contents mem' ?s = sort_key (component c) (contents ?m ?s)" and
    frame: "\<forall>a. a \<notin> set (addrs ?s) \<longrightarrow> mem' a = ?m a" and
    ll: "len left = len ?s div 2" and lr: "len right = len ?s - len ?s div 2" and
    pt: "len ?s \<noteq> 0 \<longrightarrow> ptr left = ptr ?s \<and> ptr right = ptr ?s + len ?s div 2" and
    cl: "contents mem' left = take (len ?s div 2) (contents mem' ?s)" and
    cr: "contents mem' right = drop (len ?s div 2) (contents mem' ?s)"
    by blast
  have c: "c = Red" using ax by (simp add: contents_memory_of axis_order)
  have left: "left = \<lparr>ptr = 0, len = 2\<rparr>" using ll pt ne by (simp add: n p)
  have right: "right = \<lparr>ptr = 2, len = 2\<rparr>" using lr pt ne by (simp add: n p)
  have sorted: "contents mem' ?s = [rgb 0 4 0, rgb 0 0 6, rgb 8 0 0, rgb 8 4 0]"
    using self srt by (simp add: c contents_memory_of)
  have "mem' 4 = ?m 4" using frame out by blast
  with run left right sorted cl cr out ne show ?thesis
    by (simp add: n)
qed

text \<open>
  So the caller's sequence is not preserved: on the same input the caller reads another
  sequence after the call than before it.
\<close>

theorem Partition_mutates_input:
  "contents (fst (projr (Partition (memory_of order_pixels) (whole order_pixels)))) (whole order_pixels)
     = [rgb 0 4 0, rgb 0 0 6, rgb 8 0 0, rgb 8 4 0] \<and>
   contents (memory_of order_pixels) (whole order_pixels)
     = [rgb 8 0 0, rgb 0 4 0, rgb 8 4 0, rgb 0 0 6] \<and>
   contents (fst (projr (Partition (memory_of order_pixels) (whole order_pixels)))) (whole order_pixels)
     \<noteq> contents (memory_of order_pixels) (whole order_pixels)"
proof -
  let ?m = "memory_of order_pixels" and ?s = "whole order_pixels"
  have before: "contents ?m ?s = order_pixels" by (rule contents_memory_of)
  have "length (ordered order_pixels) = len ?s" by (simp add: whole_def)
  then have after: "contents (fst (projr (Partition ?m ?s))) ?s = ordered order_pixels"
    by (simp add: Partition_eq before contents_store_self)
  have "ordered order_pixels \<noteq> order_pixels"
    by (simp add: ordered_order) (simp add: order_pixels_def rgb_def)
  with before after show ?thesis
    by (simp add: ordered_order) (simp add: order_pixels_def)
qed

text \<open>
  \<^bold>\<open>C4.\<close> For every non-empty pixel set P, \<^verbatim>\<open>Partition(P)\<close> sorts on red when red's
  spread is at least both others, otherwise on green when green's spread is at least both
  others, otherwise on blue. In particular, when the red and green spreads are equal and
  both exceed the blue spread, the sort is on red.
\<close>

theorem Partition_axis:
  "len pixels \<noteq> 0 \<Longrightarrow> Spread (contents mem pixels) = (deltaR, deltaG, deltaB) \<Longrightarrow>
     c = (if deltaR \<ge> deltaG \<and> deltaR \<ge> deltaB then Red
          else if deltaG \<ge> deltaR \<and> deltaG \<ge> deltaB then Green else Blue) \<Longrightarrow>
     \<exists>mem' left right.
       Partition mem pixels = Inr (mem', left, right) \<and>
       contents mem' pixels = sort_key (component c) (contents mem pixels) \<and>
       contents mem' left @ contents mem' right = sort_key (component c) (contents mem pixels) \<and>
       (deltaR = deltaG \<and> deltaB < deltaR \<longrightarrow>
          contents mem' left @ contents mem' right = sort_key R (contents mem pixels))"
proof -
  assume ne: "len pixels \<noteq> 0" and sp: "Spread (contents mem pixels) = (deltaR, deltaG, deltaB)"
    and c: "c = (if deltaR \<ge> deltaG \<and> deltaR \<ge> deltaB then Red
          else if deltaG \<ge> deltaR \<and> deltaG \<ge> deltaB then Green else Blue)"
  let ?ps = "contents mem pixels"
  have ax: "axis ?ps = Some c"
    using sp c by (auto simp: axis_def)
  let ?xs = "sort_key (component c) ?ps"
  let ?m = "store mem (ptr pixels) ?xs"
  have run: "Partition mem pixels = Inr (?m, left_of pixels, right_of pixels)"
    using Partition_eq [of mem pixels] ax by (simp add: ordered_axis)
  have self: "contents ?m pixels = ?xs" by (simp add: contents_store_self)
  have both: "contents ?m (left_of pixels) @ contents ?m (right_of pixels) = ?xs"
    by (simp add: contents_store_left contents_store_right)
  have tie: "deltaR = deltaG \<and> deltaB < deltaR \<longrightarrow>
      contents ?m (left_of pixels) @ contents ?m (right_of pixels) = sort_key R ?ps"
  proof
    assume "deltaR = deltaG \<and> deltaB < deltaR"
    then have "deltaG \<le> deltaR" "deltaB \<le> deltaR" by auto
    then have "c = Red" using c by simp
    with both show "contents ?m (left_of pixels) @ contents ?m (right_of pixels) = sort_key R ?ps"
      by simp
  qed
  show ?thesis
  proof (intro exI conjI)
    show "Partition mem pixels = Inr (?m, left_of pixels, right_of pixels)" by (rule run)
  qed (rule self both tie)+
qed

text \<open>
  Two pixels whose red and green spreads are both 4: sorting on red swaps them, sorting on
  green would keep them, and \<^verbatim>\<open>Partition\<close> swaps them.
\<close>

theorem Partition_axis_witness:
  "len (whole tie_pixels) \<noteq> 0 \<and>
   Spread (contents (memory_of tie_pixels) (whole tie_pixels)) = (4, 4, 0) \<and>
   (\<exists>mem' left right.
      Partition (memory_of tie_pixels) (whole tie_pixels) = Inr (mem', left, right) \<and>
      contents mem' left @ contents mem' right = [rgb 1 5 0, rgb 5 1 0]) \<and>
   sort_key G tie_pixels = [rgb 5 1 0, rgb 1 5 0]"
proof -
  have ne: "len (whole tie_pixels) \<noteq> 0" by (simp add: whole_def tie_pixels_def)
  have sp: "Spread (contents (memory_of tie_pixels) (whole tie_pixels)) = (4, 4, 0)"
    by (simp add: contents_memory_of Spread_tie)
  have red: "sort_key R tie_pixels = [rgb 1 5 0, rgb 5 1 0]"
    by (simp add: tie_pixels_def rgb_def word_le_def)
  have green: "sort_key G tie_pixels = [rgb 5 1 0, rgb 1 5 0]"
    by (simp add: tie_pixels_def rgb_def word_le_def)
  from Partition_axis [OF ne sp, of Red] ne sp red green show ?thesis
    by (simp add: contents_memory_of) blast
qed

text \<open>
  \<^bold>\<open>C5.\<close> For every pixel set P of size n, \<^verbatim>\<open>Partition(P)\<close> returns as left the
  first \<open>n div 2\<close> and as right the remaining pixels of P sorted stably and ascending on
  the chosen channel. So an empty P gives two empty sets, and a P of one pixel gives an
  empty left set and that pixel as the right set.
\<close>

theorem Partition_halves:
  "\<exists>mem' left right c.
     Partition mem pixels = Inr (mem', left, right) \<and>
     axis (contents mem pixels) = Some c \<and>
     contents mem' left = take (len pixels div 2) (sort_key (component c) (contents mem pixels)) \<and>
     contents mem' right = drop (len pixels div 2) (sort_key (component c) (contents mem pixels)) \<and>
     sorted (map (component c) (contents mem' left @ contents mem' right)) \<and>
     (\<forall>k. filter (\<lambda>p. component c p = k) (contents mem' left @ contents mem' right) =
          filter (\<lambda>p. component c p = k) (contents mem pixels)) \<and>
     (len pixels = 0 \<longrightarrow> contents mem' left = [] \<and> contents mem' right = []) \<and>
     (len pixels = 1 \<longrightarrow> contents mem' left = [] \<and> contents mem' right = contents mem pixels)"
proof -
  obtain c where c: "axis (contents mem pixels) = Some c"
    using axis_defined by blast
  let ?ps = "contents mem pixels"
  let ?xs = "sort_key (component c) ?ps"
  let ?m = "store mem (ptr pixels) ?xs"
  have run: "Partition mem pixels = Inr (?m, left_of pixels, right_of pixels)"
    using Partition_eq [of mem pixels] c by (simp add: ordered_axis)
  have l: "contents ?m (left_of pixels) = take (len pixels div 2) ?xs"
    by (simp add: contents_store_left)
  have r: "contents ?m (right_of pixels) = drop (len pixels div 2) ?xs"
    by (simp add: contents_store_right)
  have both: "contents ?m (left_of pixels) @ contents ?m (right_of pixels) = ?xs"
    by (simp add: l r)
  have srt: "sorted (map (component c) (contents ?m (left_of pixels) @ contents ?m (right_of pixels)))"
    by (simp only: both sorted_sort_key)
  have stb: "\<forall>k. filter (\<lambda>p. component c p = k) (contents ?m (left_of pixels) @ contents ?m (right_of pixels)) =
          filter (\<lambda>p. component c p = k) ?ps"
    by (simp only: both sort_key_stable) simp
  have e0: "len pixels = 0 \<longrightarrow> contents ?m (left_of pixels) = [] \<and> contents ?m (right_of pixels) = []"
  proof
    assume "len pixels = 0"
    then have "?xs = []" by (simp add: contents_def addrs_def)
    then show "contents ?m (left_of pixels) = [] \<and> contents ?m (right_of pixels) = []"
      unfolding l r by simp
  qed
  have e1: "len pixels = 1 \<longrightarrow> contents ?m (left_of pixels) = [] \<and> contents ?m (right_of pixels) = ?ps"
  proof
    assume one: "len pixels = 1"
    then obtain p where p: "?ps = [p]"
      by (metis length_contents length_Suc_conv length_0_conv One_nat_def)
    show "contents ?m (left_of pixels) = [] \<and> contents ?m (right_of pixels) = ?ps"
      unfolding l r by (simp add: one p)
  qed
  show ?thesis
  proof (intro exI conjI)
    show "Partition mem pixels = Inr (?m, left_of pixels, right_of pixels)" by (rule run)
  qed (rule c l r srt stb [rule_format] e0 e1 | rule allI)+
qed

text \<open>
  The empty slice and a slice of one pixel.
\<close>

theorem Partition_halves_witness:
  "(len (whole []) = 0 \<and>
    (\<exists>mem' left right.
       Partition (memory_of []) (whole []) = Inr (mem', left, right) \<and>
       contents mem' left = [] \<and> contents mem' right = [])) \<and>
   (len (whole [rgb 7 8 9]) = 1 \<and>
    (\<exists>mem' left right.
       Partition (memory_of [rgb 7 8 9]) (whole [rgb 7 8 9]) = Inr (mem', left, right) \<and>
       contents mem' left = [] \<and> contents mem' right = [rgb 7 8 9]))"
proof -
  have l0: "len (whole []) = 0" by (simp add: whole_def)
  have l1: "len (whole [rgb 7 8 9]) = 1" by (simp add: whole_def)
  from Partition_halves [of "memory_of []" "whole []"] l0
  have a: "\<exists>mem' left right.
       Partition (memory_of []) (whole []) = Inr (mem', left, right) \<and>
       contents mem' left = [] \<and> contents mem' right = []"
    by blast
  from Partition_halves [of "memory_of [rgb 7 8 9]" "whole [rgb 7 8 9]"] l1
  have b: "\<exists>mem' left right.
       Partition (memory_of [rgb 7 8 9]) (whole [rgb 7 8 9]) = Inr (mem', left, right) \<and>
       contents mem' left = [] \<and> contents mem' right = [rgb 7 8 9]"
    by (simp add: contents_memory_of) blast
  from l0 l1 a b show ?thesis by simp
qed

text \<open>
  \<^bold>\<open>C6.\<close> Let \<open>bits\<close> be the width of Go's \<^verbatim>\<open>int\<close> on the target, 32 or 64. For every
  non-empty pixel set P with 255 times its size below \<open>2 ^ (bits - 1)\<close>, each colour
  channel of \<^verbatim>\<open>Average(P)\<close> is the sum of that channel over P divided by the size of P,
  truncating towards zero, and alpha is \<open>0xFF\<close>. The empty set gives the zero pixel, and
  three pixels of pure red, green and blue give (85, 85, 85). Beyond the bound the totals
  wrap around and nothing is said here.
\<close>

theorem Average_mean:
  "(pixels \<noteq> [] \<and> 255 * int (length pixels) < 2 ^ (bits - 1) \<longrightarrow>
      uint (R (Average bits pixels)) = (\<Sum>p\<leftarrow>pixels. uint (R p)) sdiv int (length pixels) \<and>
      uint (G (Average bits pixels)) = (\<Sum>p\<leftarrow>pixels. uint (G p)) sdiv int (length pixels) \<and>
      uint (B (Average bits pixels)) = (\<Sum>p\<leftarrow>pixels. uint (B p)) sdiv int (length pixels) \<and>
      A (Average bits pixels) = 0xFF) \<and>
   Average bits [] = \<lparr>R = 0, G = 0, B = 0, A = 0xFF\<rparr> \<and>
   Average 32 [rgb 255 0 0, rgb 0 255 0, rgb 0 0 255] = rgb 85 85 85 \<and>
   Average 64 [rgb 255 0 0, rgb 0 255 0, rgb 0 0 255] = rgb 85 85 85"
proof (intro conjI impI)
  assume h: "pixels \<noteq> [] \<and> 255 * int (length pixels) < 2 ^ (bits - 1)"
  then have ne: "pixels \<noteq> []" and bound: "255 * int (length pixels) < 2 ^ (bits - 1)"
    by simp_all
  show "uint (R (Average bits pixels)) = (\<Sum>p\<leftarrow>pixels. uint (R p)) sdiv int (length pixels)"
    using channel_mean [OF ne bound, of R] by (simp add: Average_totals [OF ne])
  show "uint (G (Average bits pixels)) = (\<Sum>p\<leftarrow>pixels. uint (G p)) sdiv int (length pixels)"
    using channel_mean [OF ne bound, of G] by (simp add: Average_totals [OF ne])
  show "uint (B (Average bits pixels)) = (\<Sum>p\<leftarrow>pixels. uint (B p)) sdiv int (length pixels)"
    using channel_mean [OF ne bound, of B] by (simp add: Average_totals [OF ne])
  show "A (Average bits pixels) = 0xFF" by (simp add: Average_totals [OF ne])
next
  show "Average bits [] = \<lparr>R = 0, G = 0, B = 0, A = 0xFF\<rparr>" by (simp add: Average_def)
next
  show "Average 32 [rgb 255 0 0, rgb 0 255 0, rgb 0 0 255] = rgb 85 85 85"
    by (simp add: Average_totals rgb_def int_wrap_exact to_uint8_def signed_divide_int_def)
next
  show "Average 64 [rgb 255 0 0, rgb 0 255 0, rgb 0 0 255] = rgb 85 85 85"
    by (simp add: Average_totals rgb_def int_wrap_exact to_uint8_def signed_divide_int_def)
qed

text \<open>
  The five pixels of the averaging test, on a 32-bit and on a 64-bit target.
\<close>

theorem Average_mean_witness:
  "random_pixels \<noteq> [] \<and>
   255 * int (length random_pixels) < 2 ^ (32 - 1) \<and>
   255 * int (length random_pixels) < 2 ^ (64 - 1) \<and>
   uint (R (Average 32 random_pixels)) = 117 \<and>
   uint (G (Average 32 random_pixels)) = 136 \<and>
   uint (B (Average 32 random_pixels)) = 99 \<and>
   A (Average 32 random_pixels) = 0xFF \<and>
   uint (R (Average 64 random_pixels)) = 117 \<and>
   uint (G (Average 64 random_pixels)) = 136 \<and>
   uint (B (Average 64 random_pixels)) = 99 \<and>
   A (Average 64 random_pixels) = 0xFF"
proof -
  have s: "(\<Sum>p\<leftarrow>random_pixels. uint (R p)) = 588" "(\<Sum>p\<leftarrow>random_pixels. uint (G p)) = 681"
    "(\<Sum>p\<leftarrow>random_pixels. uint (B p)) = 495" "length random_pixels = 5"
    by (simp_all add: random_pixels_def rgb_def)
  have ne: "random_pixels \<noteq> []" by (simp add: random_pixels_def)
  from Average_mean [of random_pixels 32] Average_mean [of random_pixels 64] ne s show ?thesis
    by (simp add: signed_divide_int_def)
qed

text \<open>
  Without the bound the quotient is not that of the true sum. On a 32-bit target the white
  image has the channel sums 2147483775, each total wraps to -2147483521, the truncating
  quotient by 8421505 is -254, and its low byte is 2, where the mean is 255.
\<close>

theorem Average_wraps_32:
  "white_pixels \<noteq> [] \<and>
   sum_list (map (uint \<circ> R) white_pixels) sdiv int (length white_pixels) = 255 \<and>
   sum_list (map (uint \<circ> G) white_pixels) sdiv int (length white_pixels) = 255 \<and>
   sum_list (map (uint \<circ> B) white_pixels) sdiv int (length white_pixels) = 255 \<and>
   uint (R (Average 32 white_pixels)) = 2 \<and>
   uint (G (Average 32 white_pixels)) = 2 \<and>
   uint (B (Average 32 white_pixels)) = 2"
proof -
  have ne: "white_pixels \<noteq> []" by (simp add: white_pixels_def)
  have n: "length white_pixels = 8421505" by (simp add: white_pixels_def)
  have avg: "Average 32 white_pixels = \<lparr>R = 2, G = 2, B = 2, A = 0xFF\<rparr>"
    by (simp only: Average_totals [OF ne] white_sum white_wrapped n)
       (simp add: signed_divide_int_def to_uint8_def)
  have mean: "(2147483775 :: int) sdiv 8421505 = 255"
    by (simp add: signed_divide_int_def)
  from white_sum have sums: "sum_list (map (uint \<circ> R) white_pixels) = 2147483775"
    "sum_list (map (uint \<circ> G) white_pixels) = 2147483775"
    "sum_list (map (uint \<circ> B) white_pixels) = 2147483775"
    by (simp_all add: comp_def)
  show ?thesis by (simp add: ne sums n mean avg)
qed

text \<open>
  \<^bold>\<open>C7.\<close> For every pixel set P and every \<open>levels \<ge> 0\<close>, the run of the partition
  loop passes through a generation \<open>k\<close> for each \<open>0 \<le> k \<le> levels\<close>. That generation has
  \<open>2 ^ k\<close> partitions, their sizes add up to the size of P, their pixels taken together
  are the pixels of P, each as often as P has it, and their address ranges follow one
  another without overlap and cover exactly the addresses of P.
\<close>

theorem generation_invariant:
  "0 \<le> k \<Longrightarrow> k \<le> levels \<Longrightarrow>
     \<exists>mem' partitions.
       generations 0 k mem [pixels] = Inr (mem', partitions) \<and>
       generations 0 levels mem [pixels] = generations k levels mem' partitions \<and>
       length partitions = 2 ^ nat k \<and>
       sum_list (map len partitions) = len pixels \<and>
       (\<Sum>part\<leftarrow>partitions. mset (contents mem' part)) = mset (contents mem pixels) \<and>
       concat (map addrs partitions) = addrs pixels \<and>
       distinct (concat (map addrs partitions))"
proof -
  assume k0: "0 \<le> k" and kl: "k \<le> levels"
  have "distinct (region [pixels])" by simp
  from generations_refine [OF this, of 0 k mem] obtain mem' ss' where
    run: "generations 0 k mem [pixels] = Inr (mem', ss')" and
    reg: "region ss' = region [pixels]" and
    lng: "length ss' = 2 ^ nat (k - 0) * length [pixels]" and
    cnt: "map (contents mem') ss' = (bisect_all ^^ nat (k - 0)) (map (contents mem) [pixels])"
    by blast
  have pass: "generations 0 levels mem [pixels] = generations k levels mem' ss'"
  proof (cases "0 < k")
    case True
    with generations_split [OF kl, of 0 mem "[pixels]"] run show ?thesis by simp
  next
    case False
    with k0 have "k = 0" by simp
    with run show ?thesis by (simp add: generations_done)
  qed
  have addr: "concat (map addrs ss') = addrs pixels"
    using reg by (simp add: region_def)
  have "length (concat (map addrs ss')) = len pixels"
    by (simp only: addr length_addrs)
  then have lens: "sum_list (map len ss') = len pixels"
    by (simp add: length_concat comp_def)
  have "mset (concat (map (contents mem') ss')) = mset (contents mem pixels)"
    by (simp only: cnt mset_concat_funpow) simp
  then have ms: "(\<Sum>part\<leftarrow>ss'. mset (contents mem' part)) = mset (contents mem pixels)"
    by (simp add: mset_concat comp_def)
  have "distinct (concat (map addrs ss'))"
    by (simp only: addr distinct_addrs)
  with run pass lng lens ms addr show ?thesis by simp
qed

theorem generation_invariant_witness:
  "(0::int) \<le> 1 \<and> (1::int) \<le> 2 \<and>
   (\<exists>mem' partitions.
       generations 0 1 (memory_of order_pixels) [whole order_pixels] = Inr (mem', partitions) \<and>
       length partitions = 2 \<and>
       sum_list (map len partitions) = 4 \<and>
       (\<Sum>part\<leftarrow>partitions. mset (contents mem' part)) = mset order_pixels \<and>
       distinct (concat (map addrs partitions)))"
  using generation_invariant [of 1 2 "memory_of order_pixels" "whole order_pixels"]
  by (simp add: contents_memory_of) (auto simp: whole_def order_pixels_def)

text \<open>
  \<^bold>\<open>C8.\<close> With \<open>levels = 0\<close> the driver returns the single colour \<^verbatim>\<open>Average(P)\<close> and
  leaves the memory as it was.
\<close>

theorem Pixels_zero_levels:
  "Pixels bits mem pixels 0 = Inr (mem, [Average bits (contents mem pixels)])"
  by (simp add: Pixels_def generations_done)

text \<open>
  \<^bold>\<open>C9.\<close> Alpha is never consulted. For two pixel sequences of equal length that agree
  on red, green and blue at every position, and for every level count, the two runs of
  \<^verbatim>\<open>Pixels\<close> return palettes that agree on red, green and blue (they are equal);
  \<^verbatim>\<open>Spread\<close> and \<^verbatim>\<open>Average\<close> return equal results; and the left and right sets of
  \<^verbatim>\<open>Partition\<close> agree on red, green and blue at every position.
\<close>

theorem alpha_never_consulted:
  "list_all2 rgb_eq (contents mem1 pixels1) (contents mem2 pixels2) \<Longrightarrow>
     (\<exists>m1 m2 palette1 palette2.
        Pixels bits mem1 pixels1 levels = Inr (m1, palette1) \<and>
        Pixels bits mem2 pixels2 levels = Inr (m2, palette2) \<and>
        list_all2 rgb_eq palette1 palette2 \<and> palette1 = palette2) \<and>
     Spread (contents mem1 pixels1) = Spread (contents mem2 pixels2) \<and>
     Average bits (contents mem1 pixels1) = Average bits (contents mem2 pixels2) \<and>
     (\<exists>m1 left1 right1 m2 left2 right2.
        Partition mem1 pixels1 = Inr (m1, left1, right1) \<and>
        Partition mem2 pixels2 = Inr (m2, left2, right2) \<and>
        list_all2 rgb_eq (contents m1 left1) (contents m2 left2) \<and>
        list_all2 rgb_eq (contents m1 right1) (contents m2 right2))"
proof -
  let ?ps = "contents mem1 pixels1" and ?qs = "contents mem2 pixels2"
  assume rel: "list_all2 rgb_eq ?ps ?qs"
  then have len: "len pixels1 = len pixels2"
    using list_all2_lengthD by fastforce
  obtain m1 where p1: "Pixels bits mem1 pixels1 levels = Inr (m1, map (Average bits) ((bisect_all ^^ nat levels) [?ps]))"
    using Pixels_eq by blast
  obtain m2 where p2: "Pixels bits mem2 pixels2 levels = Inr (m2, map (Average bits) ((bisect_all ^^ nat levels) [?qs]))"
    using Pixels_eq by blast
  have "list_all2 (list_all2 rgb_eq) [?ps] [?qs]" using rel by simp
  then have same: "map (Average bits) ((bisect_all ^^ nat levels) [?ps]) = map (Average bits) ((bisect_all ^^ nat levels) [?qs])"
    by (intro map_Average_rgb funpow_bisect_all_rgb)
  have pix: "\<exists>m1 m2 palette1 palette2.
        Pixels bits mem1 pixels1 levels = Inr (m1, palette1) \<and>
        Pixels bits mem2 pixels2 levels = Inr (m2, palette2) \<and>
        list_all2 rgb_eq palette1 palette2 \<and> palette1 = palette2"
    using p1 p2 same rgb_eq_refl by (intro exI conjI) auto
  let ?n1 = "store mem1 (ptr pixels1) (ordered ?ps)" and ?n2 = "store mem2 (ptr pixels2) (ordered ?qs)"
  have ord: "list_all2 rgb_eq (ordered ?ps) (ordered ?qs)" using rel by (rule ordered_rgb)
  have l: "list_all2 rgb_eq (contents ?n1 (left_of pixels1)) (contents ?n2 (left_of pixels2))"
    using ord by (simp add: contents_store_left len list_all2_takeI)
  have r: "list_all2 rgb_eq (contents ?n1 (right_of pixels1)) (contents ?n2 (right_of pixels2))"
    using ord by (simp add: contents_store_right len list_all2_dropI)
  have part: "\<exists>m1 left1 right1 m2 left2 right2.
        Partition mem1 pixels1 = Inr (m1, left1, right1) \<and>
        Partition mem2 pixels2 = Inr (m2, left2, right2) \<and>
        list_all2 rgb_eq (contents m1 left1) (contents m2 left2) \<and>
        list_all2 rgb_eq (contents m1 right1) (contents m2 right2)"
    using Partition_eq [of mem1 pixels1] Partition_eq [of mem2 pixels2] l r by blast
  from pix part Spread_rgb [OF rel] Average_rgb [OF rel] show ?thesis by simp
qed

text \<open>
  The pixel of the test "ignore alpha", once with alpha 0 and once opaque.
\<close>

theorem alpha_never_consulted_witness:
  "list_all2 rgb_eq (contents (memory_of [\<lparr>R = 105, G = 32, B = 165, A = 0\<rparr>]) (whole [\<lparr>R = 105, G = 32, B = 165, A = 0\<rparr>]))
                    (contents (memory_of [rgb 105 32 165]) (whole [rgb 105 32 165])) \<and>
   \<lparr>R = 105, G = 32, B = 165, A = 0\<rparr> \<noteq> rgb 105 32 165 \<and>
   (\<exists>m1 m2 palette.
      Pixels 64 (memory_of [\<lparr>R = 105, G = 32, B = 165, A = 0\<rparr>]) (whole [\<lparr>R = 105, G = 32, B = 165, A = 0\<rparr>]) 1 = Inr (m1, palette) \<and>
      Pixels 64 (memory_of [rgb 105 32 165]) (whole [rgb 105 32 165]) 1 = Inr (m2, palette)) \<and>
   Average 64 [\<lparr>R = 105, G = 32, B = 165, A = 0\<rparr>] = Average 64 [rgb 105 32 165]"
proof -
  let ?p = "\<lparr>R = 105, G = 32, B = 165, A = 0\<rparr>" and ?q = "rgb 105 32 165"
  have rel: "list_all2 rgb_eq (contents (memory_of [?p]) (whole [?p])) (contents (memory_of [?q]) (whole [?q]))"
    by (simp add: contents_memory_of rgb_eq_def rgb_def)
  have ne: "?p \<noteq> ?q" by (simp add: rgb_def)
  from alpha_never_consulted [OF rel, where levels = 1 and bits = 64] rel ne show ?thesis
    by (simp add: contents_memory_of) blast
qed

text \<open>
  \<^bold>\<open>C10.\<close> For every pixel set P and every negative \<open>levels\<close>, \<^verbatim>\<open>Pixels\<close> does not
  panic: the loop body never runs and the result is the single colour \<^verbatim>\<open>Average(P)\<close>,
  so its length is 1 and not \<open>2\<close> to the power \<open>levels\<close>.
\<close>

theorem Pixels_negative_levels:
  "levels < 0 \<Longrightarrow>
     \<exists>palette.
       Pixels bits mem pixels levels = Inr (mem, palette) \<and>
       palette = [Average bits (contents mem pixels)] \<and>
       length palette = 1 \<and>
       real (length palette) \<noteq> 2 powr (real_of_int levels)"
proof -
  assume neg: "levels < 0"
  then have run: "Pixels bits mem pixels levels = Inr (mem, [Average bits (contents mem pixels)])"
    by (simp add: Pixels_def generations_done)
  have "2 powr (real_of_int levels) < 1"
    using neg by (simp add: powr_less_one)
  then have "real (length [Average bits (contents mem pixels)]) \<noteq> 2 powr (real_of_int levels)"
    using neg by simp
  with run show ?thesis by simp
qed

text \<open>
  The four pixels of the ordering tests with \<open>levels = -1\<close>: one colour, their average.
\<close>

theorem Pixels_negative_levels_witness:
  "(-1::int) < 0 \<and>
   Pixels 64 (memory_of order_pixels) (whole order_pixels) (-1) =
     Inr (memory_of order_pixels, [rgb 4 2 1])"
proof -
  have "Average 64 order_pixels = rgb 4 2 1" by code_simp
  with Pixels_negative_levels [where levels = "-1" and bits = 64
      and mem = "memory_of order_pixels" and pixels = "whole order_pixels"]
  show ?thesis by (simp add: contents_memory_of)
qed

end
